theory Spec2Isabelle
  imports Main
begin

section \<open>Values passed to the emitter\<close>

text \<open>
  The emitter of \<^verbatim>\<open>src/src/events.ts\<close> is typed in TypeScript, but every method
  validates its arguments at run time, so both argument positions are modelled with the
  values a caller can really pass.

  The \<^verbatim>\<open>type\<close> position: \<^verbatim>\<open>undefined\<close> (also an omitted argument), \<^verbatim>\<open>null\<close>,
  a string, or any other value. The code uses a value that is neither nullish nor a
  string in one way only, as a property key in \<^verbatim>\<open>this._events[type]\<close>, so
  \<open>TyOther k\<close> stands for such a value by the string \<open>k\<close> that its conversion to a
  property key yields: \<^verbatim>\<open>123\<close> is \<open>TyOther ''123''\<close>, \<^verbatim>\<open>true\<close> is
  \<open>TyOther ''true''\<close>, \<^verbatim>\<open>2 ** 64\<close> is \<open>TyOther ''18446744073709552000''\<close>, an object
  is \<open>TyOther k\<close> for the string \<open>k\<close> its \<^verbatim>\<open>toString\<close> returns. Values whose conversion
  throws (\<^verbatim>\<open>Object.create(null)\<close>), yields a symbol, or touches the emitter are not
  covered.

  The \<^verbatim>\<open>handler\<close> position: \<^verbatim>\<open>undefined\<close> (also an omitted argument),
  \<^verbatim>\<open>null\<close>, a string (a value that is neither nullish nor callable) or a function,
  known by its identity. \<open>HFn f\<close> is a function whose property \<^verbatim>\<open>_once\<close> can be
  assigned; its value is kept in the state. \<open>HFixedFn f v\<close> is a function on which the
  assignment \<^verbatim>\<open>handler._once = ...\<close> throws \<^verbatim>\<open>TypeError\<close> (it is frozen or not
  extensible; the module is strict code), and whose \<^verbatim>\<open>_once\<close> reads as \<open>v\<close> for good.
\<close>

datatype tyarg = TyUndefined | TyNull | TyStr string | TyOther string

datatype harg = HUndefined | HNull | HStr string | HFn nat | HFixedFn nat "bool option"

text \<open>
  What a call can end with instead of a return value: the \<^verbatim>\<open>TypeError\<close> the
  JavaScript engine throws, or \<open>NotModelled\<close> where the outcome depends on parts of the
  engine this theory does not describe (see \<open>lookup\<close> below).
\<close>

datatype error = TypeError | NotModelled

text \<open>\<^verbatim>\<open>typeof type === 'string'\<close>\<close>

fun isValidType :: "tyarg \<Rightarrow> bool" where
  "isValidType (TyStr s) = True"
| "isValidType TyUndefined = False"
| "isValidType TyNull = False"
| "isValidType (TyOther k) = False"

text \<open>\<^verbatim>\<open>typeof handler === 'function'\<close>\<close>

fun isValidHandler :: "harg \<Rightarrow> bool" where
  "isValidHandler (HFn f) = True"
| "isValidHandler (HFixedFn f v) = True"
| "isValidHandler HUndefined = False"
| "isValidHandler HNull = False"
| "isValidHandler (HStr s) = False"

text \<open>
  \<^verbatim>\<open>this._events[type]\<close> converts \<^verbatim>\<open>type\<close> to a property key. A string is its own
  key; another value is converted to the string it is given by.
\<close>

fun propertyKey :: "tyarg \<Rightarrow> string" where
  "propertyKey (TyStr s) = s"
| "propertyKey (TyOther k) = k"
| "propertyKey TyNull = ''null''"
| "propertyKey TyUndefined = ''undefined''"

section \<open>The event record\<close>

text \<open>
  \<^verbatim>\<open>class Event\<close>: the four fields of the record handed to the handlers. The field
  names carry the prefix \<open>ev_\<close> because \<open>once\<close> is also a method of the emitter.
  \<^verbatim>\<open>Date.now()\<close> is a parameter of the constructor.
\<close>

record 'd event =
  ev_type :: string
  ev_data :: 'd
  ev_timestamp :: nat
  ev_once :: bool

definition new_Event :: "string \<Rightarrow> 'd \<Rightarrow> nat \<Rightarrow> bool \<Rightarrow> 'd event" where
  "new_Event ty d now onceArg =
     \<lparr>ev_type = ty, ev_data = d, ev_timestamp = now, ev_once = onceArg\<rparr>"

section \<open>The emitter state\<close>

text \<open>
  \<open>events\<close> is the private field \<^verbatim>\<open>_events\<close>, declared
  \<^verbatim>\<open>Record<string, EventHandler[] | undefined>\<close>: a map from the property key to the
  array of handlers. The field \<open>events\<close> holds the own properties of that object, which
  are all arrays (only \<^verbatim>\<open>[]\<close> is ever assigned), \<open>None\<close> where the object has no own
  property of that name. What the object inherits is described by \<open>lookup\<close> below.

  \<open>once_prop\<close> is the property \<^verbatim>\<open>_once\<close> of every function object, \<open>None\<close> where it
  was never assigned. The property lives on the function, not in the emitter, so it is
  one value per function whatever the types it is registered for.
\<close>

record emitter =
  events :: "string \<rightharpoonup> harg list"
  once_prop :: "nat \<rightharpoonup> bool"

text \<open>\<^verbatim>\<open>new EventEmitter()\<close>, in a world where no function carries \<^verbatim>\<open>_once\<close> yet.\<close>

definition new_EventEmitter :: emitter where
  "new_EventEmitter = \<lparr>events = Map.empty, once_prop = Map.empty\<rparr>"

text \<open>The handlers registered for a key; no array and an empty array hold none.\<close>

definition handlers_of :: "emitter \<Rightarrow> string \<Rightarrow> harg list" where
  "handlers_of s k = (case events s k of None \<Rightarrow> [] | Some hs \<Rightarrow> hs)"

text \<open>
  The property read \<^verbatim>\<open>this._events[type]\<close>. \<^verbatim>\<open>new Events()\<close> is an object of the class
  \<^verbatim>\<open>Events\<close>, so besides its own properties it has the ones it inherits from
  \<^verbatim>\<open>Events.prototype\<close> and \<^verbatim>\<open>Object.prototype\<close>. In a standard engine whose
  \<^verbatim>\<open>Object.prototype\<close> has not been extended these are the twelve names below; all are
  functions, except \<^verbatim>\<open>__proto__\<close>, which reads as the object \<^verbatim>\<open>Events.prototype\<close>.
  None of them is \<^verbatim>\<open>null\<close>, an array or iterable, and none has a method
  \<^verbatim>\<open>includes\<close>; the code tells them apart only by \<^verbatim>\<open>handlers.length === 0\<close>, which
  holds for the class \<^verbatim>\<open>Events\<close> and for the functions without parameters.
\<close>

definition inherited :: "string \<Rightarrow> bool option" where
  "inherited k =
     (if k \<in> set [''constructor'', ''toString'', ''valueOf'', ''toLocaleString''] then Some True
      else if k \<in> set [''hasOwnProperty'', ''isPrototypeOf'', ''propertyIsEnumerable'',
                        ''__defineGetter__'', ''__defineSetter__'', ''__lookupGetter__'',
                        ''__lookupSetter__'', ''__proto__''] then Some False
      else None)"

text \<open>
  The assignment \<^verbatim>\<open>this._events[type] = []\<close> in \<open>off\<close> creates an own property for
  every key but \<^verbatim>\<open>'__proto__'\<close>: there it calls the setter of \<^verbatim>\<open>Object.prototype\<close>
  and makes the new array the prototype of the registry object. From then on
  \<^verbatim>\<open>this._events['__proto__']\<close> is that array, which the code reads, fills and splices
  like any array of handlers, so \<open>events\<close> keeps it under the key \<^verbatim>\<open>'__proto__'\<close>. The
  object then inherits from that array and from \<^verbatim>\<open>Array.prototype\<close>; what a key
  without an own property reads as is not described here (\<open>Unknown\<close>). The registry
  object is as it was created exactly when \<open>events\<close> has no entry for \<^verbatim>\<open>'__proto__'\<close>.
\<close>

datatype slot = Absent | Own "harg list" | Inherited bool | Unknown

definition lookup :: "emitter \<Rightarrow> string \<Rightarrow> slot" where
  "lookup s k =
     (case events s k of
        Some hs \<Rightarrow> Own hs
      | None \<Rightarrow>
          if events s ''__proto__'' \<noteq> None then Unknown
          else (case inherited k of Some z \<Rightarrow> Inherited z | None \<Rightarrow> Absent))"

text \<open>
  \<^verbatim>\<open>handler._once = b\<close> and \<^verbatim>\<open>handler._once\<close>. Both are only reached with a function
  (after \<open>isValidHandler\<close>), and the assignment only with one that accepts it; the
  other clauses make the definitions total.
\<close>

fun accepts_once :: "harg \<Rightarrow> bool" where
  "accepts_once (HFn f) = True"
| "accepts_once (HFixedFn f v) = False"
| "accepts_once HUndefined = False"
| "accepts_once HNull = False"
| "accepts_once (HStr x) = False"

fun set_once :: "emitter \<Rightarrow> harg \<Rightarrow> bool \<Rightarrow> emitter" where
  "set_once s (HFn f) b = s\<lparr>once_prop := (once_prop s)(f \<mapsto> b)\<rparr>"
| "set_once s (HFixedFn f v) b = s"
| "set_once s HUndefined b = s"
| "set_once s HNull b = s"
| "set_once s (HStr x) b = s"

fun get_once :: "emitter \<Rightarrow> harg \<Rightarrow> bool option" where
  "get_once s (HFn f) = once_prop s f"
| "get_once s (HFixedFn f v) = v"
| "get_once s HUndefined = None"
| "get_once s HNull = None"
| "get_once s (HStr x) = None"

section \<open>addListener, on, once\<close>

text \<open>
  A call returns the emitter it leaves behind and either the boolean it returns
  (\<open>Inr\<close>) or the error it throws (\<open>Inl\<close>). An inherited value is not \<^verbatim>\<open>null\<close>, so no
  array is created for it, and \<^verbatim>\<open>handlers.includes\<close> is not a function: the call
  throws. A function that does not accept \<^verbatim>\<open>_once\<close> makes the call throw at
  \<^verbatim>\<open>handler._once = false\<close>, after the empty array was stored and before the push.
\<close>

definition addListener :: "emitter \<Rightarrow> tyarg \<Rightarrow> harg \<Rightarrow> emitter \<times> (error + bool)" where
  "addListener s ty handler =
     (if \<not> isValidType ty then (s, Inr False)
      else if \<not> isValidHandler handler then (s, Inr False)
      else
        let k = propertyKey ty in
        (case lookup s k of
           Inherited z \<Rightarrow> (s, Inl TypeError)
         | Unknown \<Rightarrow> (s, Inl NotModelled)
         | _ \<Rightarrow>
             let s1 = (case events s k of
                         None \<Rightarrow> s\<lparr>events := (events s)(k \<mapsto> [])\<rparr>
                       | Some hs \<Rightarrow> s);
                 handlers = handlers_of s1 k
             in if handler \<in> set handlers then (s1, Inr False)
                else if \<not> accepts_once handler then (s1, Inl TypeError)
                else (set_once s1 handler False
                        \<lparr>events := (events s1)(k \<mapsto> handlers @ [handler])\<rparr>, Inr True)))"

definition on :: "emitter \<Rightarrow> tyarg \<Rightarrow> harg \<Rightarrow> emitter \<times> (error + bool)" where
  "on s ty handler = addListener s ty handler"

definition once :: "emitter \<Rightarrow> tyarg \<Rightarrow> harg \<Rightarrow> emitter \<times> (error + bool)" where
  "once s ty handler =
     (case addListener s ty handler of
        (s1, Inl e) \<Rightarrow> (s1, Inl e)
      | (s1, Inr ret) \<Rightarrow> if ret then (set_once s1 handler True, Inr ret) else (s1, Inr ret))"

section \<open>off, removeListener\<close>

text \<open>
  The loop of \<open>off\<close>: \<^verbatim>\<open>for (let i = 0; i < handlers.length; i++)\<close>, which splices
  the first entry strictly equal to the handler out of the array and breaks.

  \<open>off\<close> never throws. With both arguments and a key without an own property,
  \<^verbatim>\<open>handlers\<close> is \<^verbatim>\<open>undefined\<close> or an inherited function, object or number: none of
  its indexed properties is the handler, so nothing is spliced and nothing changes.
\<close>

function off_loop :: "harg list \<Rightarrow> harg \<Rightarrow> nat \<Rightarrow> harg list" where
  "off_loop handlers handler i =
     (if i < length handlers then
        (if handlers ! i = handler then take i handlers @ drop (Suc i) handlers
         else off_loop handlers handler (Suc i))
      else handlers)"
  by pat_completeness auto
termination
  by (relation "measure (\<lambda>(handlers, handler, i). length handlers - i)") auto

declare off_loop.simps [simp del]

definition off :: "emitter \<Rightarrow> tyarg \<Rightarrow> harg \<Rightarrow> emitter" where
  "off s ty handler =
     (if ty = TyUndefined \<or> ty = TyNull then s\<lparr>events := Map.empty\<rparr>
      else if handler = HUndefined \<or> handler = HNull then
        s\<lparr>events := (events s)(propertyKey ty \<mapsto> [])\<rparr>
      else if \<not> isValidType ty then s
      else if \<not> isValidHandler handler then s
      else
        (case events s (propertyKey ty) of
           None \<Rightarrow> s
         | Some handlers \<Rightarrow>
             if length handlers = 0 then s
             else s\<lparr>events := (events s)(propertyKey ty \<mapsto> off_loop handlers handler 0)\<rparr>))"


section \<open>emit\<close>

text \<open>
  A handler is an opaque function of the caller. The model takes it as an observer: it
  reads the event it is given, returns normally, and touches neither the emitter nor the
  event nor any \<^verbatim>\<open>_once\<close> property. What \<open>emit\<close> does to the outside is then the
  sequence of its
  calls, kept as a log in the order they happen: \<open>Invoke h e\<close> is the call
  \<^verbatim>\<open>handler(event)\<close>, with the fields of the shared event at that moment,
  \<open>Unregister k h\<close> is the call \<^verbatim>\<open>this.off(type, handler)\<close> that follows it, and
  \<open>Abort e\<close> ends a call that does not return.
\<close>

datatype 'd action = Invoke harg "'d event" | Unregister string harg | Abort error

fun invocations :: "'d action list \<Rightarrow> (harg \<times> 'd event) list" where
  "invocations [] = []"
| "invocations (Invoke h e # log) = (h, e) # invocations log"
| "invocations (Unregister k h # log) = invocations log"
| "invocations (Abort e # log) = invocations log"

lemma length_off_loop: "length (off_loop hs h i) \<le> length hs"
  by (induction hs h i rule: off_loop.induct) (subst off_loop.simps, auto)

lemma length_handlers_of_off:
  "isValidHandler h \<Longrightarrow>
     length (handlers_of (off s (TyStr k) h) k) \<le> length (handlers_of s k)"
  by (cases h) (auto simp: off_def handlers_of_def length_off_loop split: option.splits)

text \<open>
  The loop \<^verbatim>\<open>for (const handler of handlers)\<close>. The array iterator keeps an index
  into the array itself: each step compares the index with the current length and
  reads the current entry, so it sees what \<open>off\<close> has spliced out meanwhile. \<open>off\<close>
  with two arguments changes the array in place, so the array the loop holds is the one
  stored under the key throughout, and the model reads it from the state at each step.
\<close>

function emit_loop ::
  "emitter \<Rightarrow> string \<Rightarrow> 'd event \<Rightarrow> nat \<Rightarrow> emitter \<times> 'd event \<times> 'd action list" where
  "emit_loop s k ev i =
     (let handlers = handlers_of s k in
      if i < length handlers then
        (let handler = handlers ! i in
         if \<not> isValidHandler handler then emit_loop s k ev (Suc i)
         else
           let ev1 = (if (case get_once s handler of None \<Rightarrow> False | Some b \<Rightarrow> b)
                      then ev\<lparr>ev_once := True\<rparr> else ev)
           in if ev_once ev1 then
                (let (s2, ev2, log) = emit_loop (off s (TyStr k) handler) k ev1 (Suc i)
                 in (s2, ev2, Invoke handler ev1 # Unregister k handler # log))
              else
                (let (s2, ev2, log) = emit_loop s k ev1 (Suc i)
                 in (s2, ev2, Invoke handler ev1 # log)))
      else (s, ev, []))"
  by pat_completeness auto
termination
proof (relation "measure (\<lambda>(s, k, ev, i). length (handlers_of s k) - i)", goal_cases)
  case 1
  show ?case by simp
next
  case (2 s k ev i x xa)
  from 2(1,2) have "i < length (handlers_of s k)" by simp
  then show ?case by simp
next
  case (3 s k ev i x xa xb)
  from 3(1,2) have lt: "i < length (handlers_of s k)" by simp
  from 3(4) have "isValidHandler xa" by simp
  then have "length (handlers_of (off s (TyStr k) xa) k) \<le> length (handlers_of s k)"
    by (rule length_handlers_of_off)
  with lt show ?case by simp
next
  case (4 s k ev i x xa xb)
  from 4(1,2) have "i < length (handlers_of s k)" by simp
  then show ?case by simp
qed

declare emit_loop.simps [simp del]

text \<open>
  \<open>emit\<close>. An inherited value with \<^verbatim>\<open>length === 0\<close> makes it return like an empty
  array; any other inherited value is not iterable, and \<^verbatim>\<open>for ... of\<close> throws before
  a handler is called.
\<close>

definition emit :: "emitter \<Rightarrow> tyarg \<Rightarrow> 'd \<Rightarrow> nat \<Rightarrow> emitter \<times> 'd action list" where
  "emit s ty d now =
     (if \<not> isValidType ty then (s, [])
      else
        (case lookup s (propertyKey ty) of
           Absent \<Rightarrow> (s, [])
         | Unknown \<Rightarrow> (s, [Abort NotModelled])
         | Inherited z \<Rightarrow> if z then (s, []) else (s, [Abort TypeError])
         | Own handlers \<Rightarrow>
             if length handlers = 0 then (s, [])
             else
               let event = new_Event (propertyKey ty) d now False;
                   (s1, ev1, log) = emit_loop s (propertyKey ty) event 0
               in (s1, log)))"

text \<open>
  A key is plain in a state when the property read gives an array of the registry's own
  or \<^verbatim>\<open>undefined\<close>: the key has an own property, or the registry object is as it was
  created and does not inherit the name.
\<close>

definition plain_key :: "emitter \<Rightarrow> string \<Rightarrow> bool" where
  "plain_key s k = (case lookup s k of Absent \<Rightarrow> True | Own hs \<Rightarrow> True | _ \<Rightarrow> False)"

section \<open>Registries reached through the interface\<close>

text \<open>
  The concrete emitters the closed theorems below are evaluated on. Each one is built
  from \<open>new_EventEmitter\<close> by calls of the interface, so the code can reach it.
\<close>

text \<open>\<^verbatim>\<open>e.on('t', f1)\<close>\<close>

definition one_handler_on_t :: emitter where
  "one_handler_on_t = fst (addListener new_EventEmitter (TyStr ''t'') (HFn 1))"

text \<open>\<^verbatim>\<open>e.on('123', f1)\<close>\<close>

definition one_handler_on_123 :: emitter where
  "one_handler_on_123 = fst (addListener new_EventEmitter (TyStr ''123'') (HFn 1))"

text \<open>\<^verbatim>\<open>e.once('a', f1); e.once('a', f2)\<close>\<close>

definition two_once_handlers :: emitter where
  "two_once_handlers =
     fst (once (fst (once new_EventEmitter (TyStr ''a'') (HFn 1))) (TyStr ''a'') (HFn 2))"

text \<open>\<^verbatim>\<open>e.once('a', f1); e.on('a', f2)\<close>\<close>

definition once_and_on_before :: emitter where
  "once_and_on_before =
     fst (on (fst (once new_EventEmitter (TyStr ''a'') (HFn 1))) (TyStr ''a'') (HFn 2))"

text \<open>
  \<^verbatim>\<open>e.once('a', f1); e.on('a', f2); e.once('a', f3); e.on('b', f3)\<close>
\<close>

definition cross_talk :: emitter where
  "cross_talk =
     fst (on (fst (once once_and_on_before (TyStr ''a'') (HFn 3))) (TyStr ''b'') (HFn 3))"

text \<open>\<^verbatim>\<open>e.once('t', f1); e.once('t', f2); e.on('t', f3)\<close>\<close>

definition three_before :: emitter where
  "three_before =
     fst (on (fst (once (fst (once new_EventEmitter (TyStr ''t'') (HFn 1)))
        (TyStr ''t'') (HFn 2))) (TyStr ''t'') (HFn 3))"

text \<open>The same, followed by \<^verbatim>\<open>e.once('t', f4)\<close>.\<close>

definition once_behind_three :: emitter where
  "once_behind_three = fst (once three_before (TyStr ''t'') (HFn 4))"

text \<open>\<^verbatim>\<open>e.once('t', f0); e.on('t', f1); e.on('t', f2); e.on('t', f3)\<close>\<close>

definition on_three_behind_once :: emitter where
  "on_three_behind_once =
     fst (on (fst (on (fst (on (fst (once new_EventEmitter (TyStr ''t'') (HFn 0)))
        (TyStr ''t'') (HFn 1))) (TyStr ''t'') (HFn 2))) (TyStr ''t'') (HFn 3))"


section \<open>What off does\<close>

lemma off_loop_remove1:
  "i \<le> length hs \<Longrightarrow> off_loop hs h i = take i hs @ remove1 h (drop i hs)"
proof (induction hs h i rule: off_loop.induct)
  case (1 handlers handler i)
  show ?case
  proof (cases "i < length handlers")
    case False
    with 1(2) show ?thesis by (subst off_loop.simps) simp
  next
    case lt: True
    then have dr: "drop i handlers = handlers ! i # drop (Suc i) handlers"
      by (simp add: Cons_nth_drop_Suc)
    show ?thesis
    proof (cases "handlers ! i = handler")
      case True
      with lt dr show ?thesis by (subst off_loop.simps) simp
    next
      case False
      with lt 1(1) have "off_loop handlers handler (Suc i) =
          take (Suc i) handlers @ remove1 handler (drop (Suc i) handlers)" by simp
      with lt False dr show ?thesis
        by (subst off_loop.simps) (simp add: take_Suc_conv_app_nth)
    qed
  qed
qed

lemma off_loop_0: "off_loop hs h 0 = remove1 h hs"
  by (simp add: off_loop_remove1)

lemma off_two_args:
  "isValidHandler h \<Longrightarrow>
   off s (TyStr k) h =
     (case events s k of
        None \<Rightarrow> s
      | Some hs \<Rightarrow>
          if hs = [] then s else s\<lparr>events := (events s)(k \<mapsto> remove1 h hs)\<rparr>)"
  by (cases h) (simp_all add: off_def off_loop_0 split: option.splits)

lemma once_prop_off [simp]: "once_prop (off s t h) = once_prop s"
  by (simp add: off_def split: option.splits)

text \<open>
  Claim C10. Whenever the type argument of \<open>off\<close> is \<^verbatim>\<open>null\<close> or \<^verbatim>\<open>undefined\<close>, the
  whole registry is replaced by the empty one, whatever the handler argument \<open>h\<close> is:
  no key keeps a handler sequence, and \<open>h\<close> plays no part in the result.
\<close>

theorem off_nullish_type_discards_registry:
  "off s TyNull h = s\<lparr>events := Map.empty\<rparr> \<and>
   off s TyUndefined h = s\<lparr>events := Map.empty\<rparr> \<and>
   handlers_of (off s TyNull h) k = [] \<and> handlers_of (off s TyUndefined h) k = []"
  by (simp add: off_def handlers_of_def)

text \<open>
  Claim C9. Let the sequence \<open>hs\<close> stored for the type \<open>T\<close> be non-empty and let the
  handler \<open>h\<close> be a function. Then \<open>off\<close> with both arguments leaves the emitter as it is
  when \<open>h\<close> is not in \<open>hs\<close>; when \<open>hs = xs @ h # ys\<close> with \<open>h\<close> not in \<open>xs\<close>, the sequence
  becomes \<open>xs @ ys\<close> (the first match is removed, the other entries keep their order);
  at most one entry goes; the sequences of the other types and the one-shot flags are
  unchanged.
\<close>

theorem off_removes_first_match:
  assumes "events s T = Some hs" and "hs \<noteq> []" and "isValidHandler h"
  shows "(h \<notin> set hs \<longrightarrow> off s (TyStr T) h = s) \<and>
         (\<forall>xs ys. hs = xs @ h # ys \<and> h \<notin> set xs \<longrightarrow>
            events (off s (TyStr T) h) T = Some (xs @ ys)) \<and>
         events (off s (TyStr T) h) T = Some (remove1 h hs) \<and>
         length hs \<le> Suc (length (handlers_of (off s (TyStr T) h) T)) \<and>
         (\<forall>k. k \<noteq> T \<longrightarrow> events (off s (TyStr T) h) k = events s k) \<and>
         once_prop (off s (TyStr T) h) = once_prop s"
proof -
  have st: "off s (TyStr T) h = s\<lparr>events := (events s)(T \<mapsto> remove1 h hs)\<rparr>"
    using assms by (simp add: off_two_args)
  have absent: "h \<notin> set hs \<longrightarrow> off s (TyStr T) h = s"
    using assms(1) by (simp add: st remove1_idem map_upd_triv)
  have first: "\<forall>xs ys. hs = xs @ h # ys \<and> h \<notin> set xs \<longrightarrow>
            events (off s (TyStr T) h) T = Some (xs @ ys)"
    by (simp add: st remove1_append)
  have len: "length hs \<le> Suc (length (handlers_of (off s (TyStr T) h) T))"
    by (auto simp: st handlers_of_def length_remove1)
  from absent first len show ?thesis by (simp add: st)
qed

text \<open>
  Witness of C9: with \<open>f1, f2, f3\<close> registered for \<^verbatim>\<open>'t'\<close>, \<^verbatim>\<open>off('t', f2)\<close> leaves
  \<open>f1, f3\<close>.
\<close>

theorem off_removes_first_match_witness:
  "events \<lparr>events = [''t'' \<mapsto> [HFn 1, HFn 2, HFn 3]], once_prop = Map.empty\<rparr> ''t''
     = Some [HFn 1, HFn 2, HFn 3] \<and>
   [HFn 1, HFn 2, HFn 3] \<noteq> [] \<and> isValidHandler (HFn 2) \<and>
   events (off \<lparr>events = [''t'' \<mapsto> [HFn 1, HFn 2, HFn 3]], once_prop = Map.empty\<rparr>
              (TyStr ''t'') (HFn 2)) ''t'' = Some [HFn 1, HFn 3]"
  using off_removes_first_match
    [of "\<lparr>events = [''t'' \<mapsto> [HFn 1, HFn 2, HFn 3]], once_prop = Map.empty\<rparr>"
        "''t''" "[HFn 1, HFn 2, HFn 3]" "HFn 2"]
  by simp

text \<open>
  Claim C7, as stated, fails. \<^verbatim>\<open>off(null)\<close> is a call with a single argument that is
  not a string, and it empties a registry that held a handler for \<^verbatim>\<open>'t'\<close>. So is
  \<^verbatim>\<open>off(123)\<close>, and it clears the sequence stored under the key \<^verbatim>\<open>'123'\<close>.
\<close>

theorem off_single_nonstring_counterexample:
  "\<not> isValidType TyNull \<and>
   handlers_of one_handler_on_t ''t'' = [HFn 1] \<and>
   handlers_of (off one_handler_on_t TyNull HUndefined) ''t'' = [] \<and>
   off one_handler_on_t TyNull HUndefined \<noteq> one_handler_on_t \<and>
   \<not> isValidType (TyOther ''123'') \<and>
   handlers_of one_handler_on_123 ''123'' = [HFn 1] \<and>
   handlers_of (off one_handler_on_123 (TyOther ''123'') HUndefined) ''123'' = []"
proof -
  have before: "handlers_of one_handler_on_t ''t'' = [HFn 1]"
    by code_simp
  have after: "handlers_of (off one_handler_on_t TyNull HUndefined) ''t'' = []"
    by (simp add: handlers_of_def off_def)
  from before after have "off one_handler_on_t TyNull HUndefined \<noteq> one_handler_on_t"
    by auto
  moreover have "handlers_of one_handler_on_123 ''123'' = [HFn 1]"
    by code_simp
  moreover have "handlers_of (off one_handler_on_123 (TyOther ''123'') HUndefined) ''123'' = []"
    by (simp add: handlers_of_def off_def)
  ultimately show ?thesis using before after by simp
qed

text \<open>
  Claim C7, amended. A call of \<open>off\<close> with a single argument \<open>t\<close> that is not a string
  never changes a one-shot flag. When \<open>t\<close> is \<^verbatim>\<open>null\<close> or \<^verbatim>\<open>undefined\<close> the whole
  registry is discarded (the guard \<^verbatim>\<open>type == null\<close> comes first). When \<open>t\<close> is another
  value whose conversion to a property key yields the string \<open>k'\<close>, the handler sequence
  of every key other than \<open>k'\<close> is unchanged.
\<close>

theorem off_single_nonstring:
  assumes "\<not> isValidType t"
  shows "once_prop (off s t HUndefined) = once_prop s \<and>
         (t = TyNull \<or> t = TyUndefined \<longrightarrow> off s t HUndefined = s\<lparr>events := Map.empty\<rparr>) \<and>
         (\<forall>k'. t = TyOther k' \<longrightarrow>
            (\<forall>k. k \<noteq> k' \<longrightarrow> events (off s t HUndefined) k = events s k))"
  by (auto simp: off_def)

text \<open>
  Witness of the amended C7: \<^verbatim>\<open>off(undefined)\<close> empties the registry that holds \<open>f1\<close>
  for \<^verbatim>\<open>'t'\<close>, and \<^verbatim>\<open>off(123)\<close> leaves the sequence of \<^verbatim>\<open>'t'\<close> as it is.
\<close>

theorem off_single_nonstring_witness:
  "\<not> isValidType (TyOther ''123'') \<and> \<not> isValidType TyUndefined \<and>
   off one_handler_on_t TyUndefined HUndefined = one_handler_on_t\<lparr>events := Map.empty\<rparr> \<and>
   events (off one_handler_on_t (TyOther ''123'') HUndefined) ''t'' = Some [HFn 1]"
proof -
  have before: "events one_handler_on_t ''t'' = Some [HFn 1]" by code_simp
  from off_single_nonstring [of "TyOther ''123''" one_handler_on_t]
  have "events (off one_handler_on_t (TyOther ''123'') HUndefined) ''t'' =
        events one_handler_on_t ''t''"
    by simp
  with before off_single_nonstring [of TyUndefined one_handler_on_t] show ?thesis by simp
qed

section \<open>What addListener and once do\<close>

text \<open>
  Claim C8. If the type argument is not a string or the handler argument is not
  callable, \<open>addListener\<close> (and its alias \<open>on\<close>) returns \<^verbatim>\<open>false\<close> and the emitter
  is unchanged; \<open>once\<close> returns \<^verbatim>\<open>false\<close> too and leaves the emitter, and with it every
  one-shot flag, unchanged.
\<close>

theorem invalid_arguments_rejected:
  "\<not> isValidType t \<or> \<not> isValidHandler h \<Longrightarrow>
     addListener s t h = (s, Inr False) \<and> on s t h = (s, Inr False) \<and>
     once s t h = (s, Inr False)"
  by (auto simp: addListener_def on_def once_def)

text \<open>
  Witness of C8: \<^verbatim>\<open>on(123, f7)\<close> and \<^verbatim>\<open>once(123, f7)\<close> on a new emitter.
\<close>

theorem invalid_arguments_rejected_witness:
  "\<not> isValidType (TyOther ''123'') \<and>
   addListener new_EventEmitter (TyOther ''123'') (HFn 7) = (new_EventEmitter, Inr False) \<and>
   on new_EventEmitter (TyOther ''123'') (HFn 7) = (new_EventEmitter, Inr False) \<and>
   once new_EventEmitter (TyOther ''123'') (HFn 7) = (new_EventEmitter, Inr False)"
  using invalid_arguments_rejected [of "TyOther ''123''" "HFn 7" new_EventEmitter] by simp

section \<open>The loop of emit, step by step\<close>

text \<open>
  The four ways one turn of the loop can go: the index has reached the end of the array;
  the entry is not callable and is passed over; the handler is invoked and stays (the
  shared event's \<open>once\<close> is false and so is the handler's flag); the handler is invoked
  with \<open>once = true\<close> and unregistered. The induction rule follows these four.
\<close>

lemma ev_once_update_idem: "ev_once ev \<Longrightarrow> ev\<lparr>ev_once := True\<rparr> = ev"
  by simp

lemma emit_loop_done:
  "\<not> i < length (handlers_of s k) \<Longrightarrow> emit_loop s k ev i = (s, ev, [])"
  by (subst emit_loop.simps) simp

lemma emit_loop_skip:
  "i < length (handlers_of s k) \<Longrightarrow> \<not> isValidHandler (handlers_of s k ! i) \<Longrightarrow>
     emit_loop s k ev i = emit_loop s k ev (Suc i)"
  by (subst emit_loop.simps) simp

lemma emit_loop_plain:
  "i < length (handlers_of s k) \<Longrightarrow> h = handlers_of s k ! i \<Longrightarrow> isValidHandler h \<Longrightarrow>
   \<not> ev_once ev \<Longrightarrow> get_once s h \<noteq> Some True \<Longrightarrow>
     emit_loop s k ev i =
       (case emit_loop s k ev (Suc i) of (s2, ev2, log) \<Rightarrow> (s2, ev2, Invoke h ev # log))"
  by (subst emit_loop.simps) (auto simp: Let_def split: option.splits)

lemma emit_loop_unregister:
  "i < length (handlers_of s k) \<Longrightarrow> h = handlers_of s k ! i \<Longrightarrow> isValidHandler h \<Longrightarrow>
   ev_once ev \<or> get_once s h = Some True \<Longrightarrow>
     emit_loop s k ev i =
       (case emit_loop (off s (TyStr k) h) k (ev\<lparr>ev_once := True\<rparr>) (Suc i) of
          (s2, ev2, log) \<Rightarrow>
            (s2, ev2, Invoke h (ev\<lparr>ev_once := True\<rparr>) # Unregister k h # log))"
  by (subst emit_loop.simps) (auto simp: Let_def ev_once_update_idem split: option.splits)

lemma emit_loop_induct [case_names finished skip plain removed]:
  assumes "\<And>s ev i. \<not> i < length (handlers_of s k) \<Longrightarrow> P s ev i"
    and "\<And>s ev i. i < length (handlers_of s k) \<Longrightarrow>
           \<not> isValidHandler (handlers_of s k ! i) \<Longrightarrow> P s ev (Suc i) \<Longrightarrow> P s ev i"
    and "\<And>s ev i h. i < length (handlers_of s k) \<Longrightarrow> h = handlers_of s k ! i \<Longrightarrow>
           isValidHandler h \<Longrightarrow> \<not> ev_once ev \<Longrightarrow> get_once s h \<noteq> Some True \<Longrightarrow>
           P s ev (Suc i) \<Longrightarrow> P s ev i"
    and "\<And>s ev i h. i < length (handlers_of s k) \<Longrightarrow> h = handlers_of s k ! i \<Longrightarrow>
           isValidHandler h \<Longrightarrow> ev_once ev \<or> get_once s h = Some True \<Longrightarrow>
           P (off s (TyStr k) h) (ev\<lparr>ev_once := True\<rparr>) (Suc i) \<Longrightarrow> P s ev i"
  shows "P s (ev :: 'd event) i"
proof (induction "length (handlers_of s k) - i" arbitrary: s ev i rule: less_induct)
  case less
  show ?case
  proof (cases "i < length (handlers_of s k)")
    case False
    then show ?thesis by (rule assms(1))
  next
    case lt: True
    then have next_smaller:
      "length (handlers_of s k) - Suc i < length (handlers_of s k) - i" by simp
    show ?thesis
    proof (cases "isValidHandler (handlers_of s k ! i)")
      case False
      from lt False less(1) [OF next_smaller] show ?thesis by (rule assms(2))
    next
      case valid: True
      show ?thesis
      proof (cases "ev_once ev \<or> get_once s (handlers_of s k ! i) = Some True")
        case True
        from length_handlers_of_off [OF valid, of s k] lt
        have "length (handlers_of (off s (TyStr k) (handlers_of s k ! i)) k) - Suc i
                < length (handlers_of s k) - i"
          by simp
        then have "P (off s (TyStr k) (handlers_of s k ! i)) (ev\<lparr>ev_once := True\<rparr>) (Suc i)"
          by (rule less(1))
        with lt refl valid True show ?thesis by (rule assms(4))
      next
        case False
        then have "\<not> ev_once ev" and "get_once s (handlers_of s k ! i) \<noteq> Some True"
          by simp_all
        with lt refl valid show ?thesis
          using less(1) [OF next_smaller] by (rule assms(3))
      qed
    qed
  qed
qed

lemma once_prop_emit_loop: "once_prop (fst (emit_loop s k ev i)) = once_prop s"
  by (induction s ev i rule: emit_loop_induct [where k = k])
     (simp_all add: emit_loop_done emit_loop_skip emit_loop_plain emit_loop_unregister
        case_prod_beta)


lemma get_once_off [simp]: "get_once (off s t h) g = get_once s g"
  by (cases g) simp_all

lemma get_once_emit_loop [simp]: "get_once (fst (emit_loop s k ev i)) g = get_once s g"
  by (cases g) (simp_all add: once_prop_emit_loop)

lemma handlers_of_off_same:
  "isValidHandler h \<Longrightarrow> handlers_of (off s (TyStr k) h) k = remove1 h (handlers_of s k)"
  by (simp add: off_two_args handlers_of_def split: option.splits)

lemma set_handlers_of_off: "set (handlers_of (off s t h) k) \<subseteq> set (handlers_of s k)"
proof (cases "(\<exists>x. t = TyStr x) \<and> isValidHandler h")
  case True
  then obtain x where [simp]: "t = TyStr x" and valid: "isValidHandler h" by blast
  show ?thesis
    by (auto simp: off_two_args [OF valid] handlers_of_def split: option.splits
          dest: set_mp [OF set_remove1_subset])
next
  case False
  then show ?thesis
    by (cases t; cases h) (auto simp: off_def handlers_of_def)
qed

lemma distinct_handlers_of_off:
  "distinct (handlers_of s k) \<Longrightarrow> distinct (handlers_of (off s t h) k)"
proof (cases "(\<exists>x. t = TyStr x) \<and> isValidHandler h")
  case True
  then obtain x where [simp]: "t = TyStr x" and valid: "isValidHandler h" by blast
  assume "distinct (handlers_of s k)"
  then show ?thesis
    by (auto simp: off_two_args [OF valid] handlers_of_def split: option.splits)
next
  case False
  assume "distinct (handlers_of s k)"
  with False show ?thesis
    by (cases t; cases h) (auto simp: off_def handlers_of_def)
qed

lemma set_handlers_of_emit_loop:
  "set (handlers_of (fst (emit_loop s k ev i)) k') \<subseteq> set (handlers_of s k')"
proof (induction s ev i rule: emit_loop_induct [where k = k])
  case (removed s ev i h)
  from removed(5) set_handlers_of_off [of s "TyStr k" h k']
  have "set (handlers_of (fst (emit_loop (off s (TyStr k) h) k (ev\<lparr>ev_once := True\<rparr>) (Suc i))) k')
          \<subseteq> set (handlers_of s k')" by blast
  with removed(1-4) show ?case
    by (simp add: emit_loop_unregister case_prod_beta)
qed (simp_all add: emit_loop_done emit_loop_skip emit_loop_plain case_prod_beta)


lemma emit_loop_event_fields:
  "(h, e) \<in> set (invocations (snd (snd (emit_loop s k ev i)))) \<Longrightarrow>
     ev_type e = ev_type ev \<and> ev_data e = ev_data ev \<and> ev_timestamp e = ev_timestamp ev"
  by (induction s ev i rule: emit_loop_induct [where k = k])
     (auto simp: emit_loop_done emit_loop_skip emit_loop_plain emit_loop_unregister
        case_prod_beta)

lemma ex_le_Suc_nth_Cons:
  "(\<exists>i\<le>Suc j. Q ((x # xs) ! i)) = (Q x \<or> (\<exists>i\<le>j. Q (xs ! i)))"
proof
  assume "\<exists>i\<le>Suc j. Q ((x # xs) ! i)"
  then obtain i where i: "i \<le> Suc j" "Q ((x # xs) ! i)" by blast
  show "Q x \<or> (\<exists>i\<le>j. Q (xs ! i))"
  proof (cases i)
    case 0
    with i show ?thesis by simp
  next
    case (Suc i')
    with i have "i' \<le> j" "Q (xs ! i')" by simp_all
    then show ?thesis by blast
  qed
next
  assume "Q x \<or> (\<exists>i\<le>j. Q (xs ! i))"
  then show "\<exists>i\<le>Suc j. Q ((x # xs) ! i)"
  proof
    assume "Q x"
    then have "0 \<le> Suc j \<and> Q ((x # xs) ! 0)" by simp
    then show ?thesis by blast
  next
    assume "\<exists>i\<le>j. Q (xs ! i)"
    then obtain i where "i \<le> j" "Q (xs ! i)" by blast
    then have "Suc i \<le> Suc j \<and> Q ((x # xs) ! Suc i)" by simp
    then show ?thesis by blast
  qed
qed

lemma emit_loop_once_seen:
  "j < length (invocations (snd (snd (emit_loop s k ev i)))) \<Longrightarrow>
     ev_once (snd (invocations (snd (snd (emit_loop s k ev i))) ! j)) =
       (ev_once ev \<or>
        (\<exists>m\<le>j. get_once s (fst (invocations (snd (snd (emit_loop s k ev i))) ! m)) = Some True))"
proof (induction s ev i arbitrary: j rule: emit_loop_induct [where k = k])
  case (finished s ev i)
  then show ?case by (simp add: emit_loop_done)
next
  case (skip s ev i)
  then show ?case by (simp add: emit_loop_skip)
next
  case (plain s ev i h)
  let ?rest = "invocations (snd (snd (emit_loop s k ev (Suc i))))"
  from plain(1-5) have inv: "invocations (snd (snd (emit_loop s k ev i))) = (h, ev) # ?rest"
    by (simp add: emit_loop_plain case_prod_beta)
  show ?case
  proof (cases j)
    case 0
    with plain(4,5) show ?thesis by (simp add: inv)
  next
    case (Suc j')
    with plain(7) have "j' < length ?rest" by (simp add: inv)
    from plain(6) [OF this] plain(5) show ?thesis
      by (simp add: inv Suc
          ex_le_Suc_nth_Cons [where Q = "\<lambda>z. get_once s (fst z) = Some True"])
  qed
next
  case (removed s ev i h)
  let ?s1 = "off s (TyStr k) h" and ?ev1 = "ev\<lparr>ev_once := True\<rparr>"
  let ?rest = "invocations (snd (snd (emit_loop ?s1 k ?ev1 (Suc i))))"
  from removed(1-4) have inv: "invocations (snd (snd (emit_loop s k ev i))) = (h, ?ev1) # ?rest"
    by (simp add: emit_loop_unregister case_prod_beta)
  show ?case
  proof (cases j)
    case 0
    with removed(4) show ?thesis by (simp add: inv)
  next
    case (Suc j')
    with removed(6) have "j' < length ?rest" by (simp add: inv)
    from removed(5) [OF this] removed(4) show ?thesis
      by (auto simp: inv Suc
          ex_le_Suc_nth_Cons [where Q = "\<lambda>z. get_once s (fst z) = Some True"])
  qed
qed

lemma emit_loop_unregister_follows:
  "j < length (snd (snd (emit_loop s k ev i))) \<Longrightarrow>
   snd (snd (emit_loop s k ev i)) ! j = Invoke h e \<Longrightarrow> ev_once e \<Longrightarrow>
     Suc j < length (snd (snd (emit_loop s k ev i))) \<and>
     snd (snd (emit_loop s k ev i)) ! Suc j = Unregister k h"
proof (induction s ev i arbitrary: j rule: emit_loop_induct [where k = k])
  case (finished s ev i)
  then show ?case by (simp add: emit_loop_done)
next
  case (skip s ev i)
  then show ?case by (simp add: emit_loop_skip)
next
  case (plain s ev i h0)
  let ?rest = "snd (snd (emit_loop s k ev (Suc i)))"
  from plain(1-5) have log: "snd (snd (emit_loop s k ev i)) = Invoke h0 ev # ?rest"
    by (simp add: emit_loop_plain case_prod_beta)
  show ?case
  proof (cases j)
    case 0
    with plain(4,8,9) show ?thesis by (simp add: log)
  next
    case (Suc j')
    with plain(7,8) have "j' < length ?rest" "?rest ! j' = Invoke h e" by (simp_all add: log)
    from plain(6) [OF this plain(9)] show ?thesis by (simp add: log Suc)
  qed
next
  case (removed s ev i h0)
  let ?s1 = "off s (TyStr k) h0" and ?ev1 = "ev\<lparr>ev_once := True\<rparr>"
  let ?rest = "snd (snd (emit_loop ?s1 k ?ev1 (Suc i)))"
  from removed(1-4)
  have log: "snd (snd (emit_loop s k ev i)) = Invoke h0 ?ev1 # Unregister k h0 # ?rest"
    by (simp add: emit_loop_unregister case_prod_beta)
  show ?case
  proof (cases j)
    case 0
    with removed(7) show ?thesis by (simp add: log)
  next
    case (Suc j1)
    show ?thesis
    proof (cases j1)
      case 0
      with Suc removed(7) show ?thesis by (simp add: log)
    next
      case (Suc j2)
      with \<open>j = Suc j1\<close> removed(6,7)
      have "j2 < length ?rest" "?rest ! j2 = Invoke h e" by (simp_all add: log)
      from removed(5) [OF this removed(8)] show ?thesis
        by (simp add: log Suc \<open>j = Suc j1\<close>)
    qed
  qed
qed

lemma emit_loop_removed_absent:
  "distinct (handlers_of s k) \<Longrightarrow>
   (h, e) \<in> set (invocations (snd (snd (emit_loop s k ev i)))) \<Longrightarrow> ev_once e \<Longrightarrow>
     h \<notin> set (handlers_of (fst (emit_loop s k ev i)) k)"
proof (induction s ev i rule: emit_loop_induct [where k = k])
  case (finished s ev i)
  then show ?case by (simp add: emit_loop_done)
next
  case (skip s ev i)
  then show ?case by (simp add: emit_loop_skip)
next
  case (plain s ev i h0)
  from plain(1-5) plain(8,9)
  have "(h, e) \<in> set (invocations (snd (snd (emit_loop s k ev (Suc i)))))"
    by (auto simp: emit_loop_plain case_prod_beta)
  from plain(6) [OF plain(7) this plain(9)] plain(1-5) show ?case
    by (simp add: emit_loop_plain case_prod_beta)
next
  case (removed s ev i h0)
  let ?s1 = "off s (TyStr k) h0" and ?ev1 = "ev\<lparr>ev_once := True\<rparr>"
  from removed(1-4)
  have st: "fst (emit_loop s k ev i) = fst (emit_loop ?s1 k ?ev1 (Suc i))"
    and inv: "invocations (snd (snd (emit_loop s k ev i))) =
                (h0, ?ev1) # invocations (snd (snd (emit_loop ?s1 k ?ev1 (Suc i))))"
    by (simp_all add: emit_loop_unregister case_prod_beta)
  from removed(6) have d1: "distinct (handlers_of ?s1 k)" by (rule distinct_handlers_of_off)
  from removed(7) consider "h = h0" | "(h, e) \<in> set (invocations (snd (snd (emit_loop ?s1 k ?ev1 (Suc i)))))"
    by (auto simp: inv)
  then show ?case
  proof cases
    case 1
    from removed(6) have "h0 \<notin> set (handlers_of ?s1 k)"
      by (simp add: handlers_of_off_same [OF removed(3)])
    with set_handlers_of_emit_loop [of ?s1 k ?ev1 "Suc i" k] 1 show ?thesis
      by (auto simp: st)
  next
    case 2
    from removed(5) [OF d1 2 removed(8)] show ?thesis by (simp add: st)
  qed
qed

lemma emit_loop_no_one_shot:
  "\<forall>g\<in>set (handlers_of s k). get_once s g \<noteq> Some True \<Longrightarrow> \<not> ev_once ev \<Longrightarrow>
     emit_loop s k ev i =
       (s, ev, map (\<lambda>h. Invoke h ev) (filter isValidHandler (drop i (handlers_of s k))))"
proof (induction s ev i rule: emit_loop_induct [where k = k])
  case (finished s ev i)
  then show ?case by (simp add: emit_loop_done)
next
  case (skip s ev i)
  from skip(1) have "drop i (handlers_of s k) = handlers_of s k ! i # drop (Suc i) (handlers_of s k)"
    by (simp add: Cons_nth_drop_Suc)
  with skip show ?case by (simp add: emit_loop_skip)
next
  case (plain s ev i h)
  from plain(1) have "drop i (handlers_of s k) = handlers_of s k ! i # drop (Suc i) (handlers_of s k)"
    by (simp add: Cons_nth_drop_Suc)
  with plain show ?case by (simp add: emit_loop_plain)
next
  case (removed s ev i h)
  from removed(1,2) have "h \<in> set (handlers_of s k)" by simp
  with removed(4,6,7) show ?case by blast
qed

section \<open>What emit does\<close>

lemma plain_key_Some: "events s k = Some hs \<Longrightarrow> plain_key s k"
  by (simp add: plain_key_def lookup_def)

lemma plain_key_handlers: "handlers_of s k \<noteq> [] \<Longrightarrow> plain_key s k"
  by (auto simp: handlers_of_def plain_key_Some split: option.splits)

lemma emit_plain:
  "plain_key s T \<Longrightarrow>
   emit s (TyStr T) d now =
     (fst (emit_loop s T (new_Event T d now False) 0),
      snd (snd (emit_loop s T (new_Event T d now False) 0)))"
  by (auto simp: emit_def plain_key_def lookup_def handlers_of_def emit_loop_done
      case_prod_beta Let_def split: option.splits if_splits)

lemma emit_not_plain:
  "\<not> plain_key s T \<Longrightarrow>
   fst (emit s (TyStr T) d now) = s \<and>
   (snd (emit s (TyStr T) d now) = [] \<or> (\<exists>e. snd (emit s (TyStr T) d now) = [Abort e]))"
  by (auto simp: emit_def plain_key_def split: slot.splits)

lemma invocations_map_Invoke: "invocations (map (\<lambda>h. Invoke h ev) hs) = map (\<lambda>h. (h, ev)) hs"
  by (induction hs) simp_all

text \<open>
  A pass in which no registered handler carries a true one-shot flag: every callable
  entry is invoked, in the order of the sequence, with \<open>once = false\<close>, and the emitter
  is unchanged.
\<close>

lemma emit_no_one_shot:
  assumes "\<forall>g\<in>set (handlers_of s T). get_once s g \<noteq> Some True" and "plain_key s T"
  shows "emit s (TyStr T) d now =
           (s, map (\<lambda>h. Invoke h (new_Event T d now False))
                 (filter isValidHandler (handlers_of s T)))"
  using emit_loop_no_one_shot [OF assms(1), of "new_Event T d now False" 0] assms(2)
  by (simp add: emit_plain new_Event_def)

text \<open>
  Claim C2. Let \<open>emit\<close> for the type \<open>T\<close> with the payload \<open>d\<close> at the time \<open>now\<close> give
  the emitter \<open>s'\<close> and the log \<open>log\<close>.
  \<^item> Every invoked handler is handed the one record built at the start: its \<open>type\<close> is
    \<open>T\<close>, its \<open>data\<close> is \<open>d\<close> and its \<open>timestamp\<close> is \<open>now\<close>; only its field \<open>once\<close>
    varies.
  \<^item> The handler invoked at position \<open>j\<close> observes \<open>once = true\<close> exactly when a handler
    invoked at or before \<open>j\<close> has its one-shot flag true; so \<open>once\<close> starts false, is set by
    the first one-shot handler invoked and stays true for all later ones.
  \<^item> Every invocation that observes \<open>once = true\<close> is followed at once, before any other
    call, by \<^verbatim>\<open>off(T, handler)\<close> for that very handler.
  \<^item> When the sequence of \<open>T\<close> held no handler twice, every handler invoked with
    \<open>once = true\<close> is absent from the sequence of \<open>T\<close> when \<open>emit\<close> is over.
\<close>

theorem emit_shares_one_event:
  assumes "emit s (TyStr T) d now = (s', log)"
  shows "(\<forall>(h, e)\<in>set (invocations log).
            ev_type e = T \<and> ev_data e = d \<and> ev_timestamp e = now) \<and>
         (\<forall>j<length (invocations log).
            ev_once (snd (invocations log ! j)) =
              (\<exists>m\<le>j. get_once s (fst (invocations log ! m)) = Some True)) \<and>
         (\<forall>j j'. j \<le> j' \<and> j' < length (invocations log) \<and>
            ev_once (snd (invocations log ! j)) \<longrightarrow> ev_once (snd (invocations log ! j'))) \<and>
         (\<forall>j h e. j < length log \<and> log ! j = Invoke h e \<and> ev_once e \<longrightarrow>
            Suc j < length log \<and> log ! Suc j = Unregister T h) \<and>
         (distinct (handlers_of s T) \<longrightarrow>
            (\<forall>(h, e)\<in>set (invocations log). ev_once e \<longrightarrow> h \<notin> set (handlers_of s' T)))"
proof (cases "plain_key s T")
  case False
  from emit_not_plain [OF False, of d now] assms
  have "log = [] \<or> (\<exists>e. log = [Abort e])" by simp
  then show ?thesis by auto
next
  case True
  let ?ev0 = "new_Event T d now False"
  from assms True have s': "s' = fst (emit_loop s T ?ev0 0)"
    and log: "log = snd (snd (emit_loop s T ?ev0 0))"
    by (simp_all add: emit_plain)
  have shared: "\<forall>(h, e)\<in>set (invocations log).
            ev_type e = T \<and> ev_data e = d \<and> ev_timestamp e = now"
  proof (clarify)
    fix h e assume "(h, e) \<in> set (invocations log)"
    then have "ev_type e = ev_type ?ev0 \<and> ev_data e = ev_data ?ev0 \<and>
               ev_timestamp e = ev_timestamp ?ev0"
      unfolding log by (rule emit_loop_event_fields)
    then show "ev_type e = T \<and> ev_data e = d \<and> ev_timestamp e = now"
      by (simp add: new_Event_def)
  qed
  have seen: "\<forall>j<length (invocations log).
            ev_once (snd (invocations log ! j)) =
              (\<exists>m\<le>j. get_once s (fst (invocations log ! m)) = Some True)"
    unfolding log using emit_loop_once_seen [of _ s T ?ev0 0]
    by (simp add: new_Event_def)
  have later: "\<forall>j j'. j \<le> j' \<and> j' < length (invocations log) \<and>
            ev_once (snd (invocations log ! j)) \<longrightarrow> ev_once (snd (invocations log ! j'))"
  proof (intro allI impI, elim conjE)
    fix j j'
    assume le: "j \<le> j'" and lt: "j' < length (invocations log)"
      and on_j: "ev_once (snd (invocations log ! j))"
    from le lt have "j < length (invocations log)" by simp
    with seen on_j obtain m where "m \<le> j" "get_once s (fst (invocations log ! m)) = Some True"
      by blast
    with le have "\<exists>m\<le>j'. get_once s (fst (invocations log ! m)) = Some True"
      using le_trans by blast
    with seen lt show "ev_once (snd (invocations log ! j'))" by blast
  qed
  have follows: "\<forall>j h e. j < length log \<and> log ! j = Invoke h e \<and> ev_once e \<longrightarrow>
            Suc j < length log \<and> log ! Suc j = Unregister T h"
    unfolding log using emit_loop_unregister_follows [of _ s T ?ev0 0] by blast
  have absent: "distinct (handlers_of s T) \<longrightarrow>
            (\<forall>(h, e)\<in>set (invocations log). ev_once e \<longrightarrow> h \<notin> set (handlers_of s' T))"
    unfolding log s' using emit_loop_removed_absent [of s T _ _ ?ev0 0] by blast
  from shared seen later follows absent show ?thesis by blast
qed

text \<open>
  Witness of C2: \<open>f1\<close> (one-shot), \<open>f2\<close>, \<open>f3\<close> (its flag reset by a later \<open>on\<close>) are
  registered for \<^verbatim>\<open>'a'\<close>, and \<^verbatim>\<open>emit('a', 'payload')\<close> runs at the time 42. The pass
  invokes \<open>f1\<close> and \<open>f3\<close>, both with the record
  \<open>{type = 'a', data = 'payload', timestamp = 42, once = true}\<close>, and both are gone from
  the sequence afterwards.
\<close>

theorem emit_shares_one_event_witness:
  "distinct (handlers_of cross_talk ''a'') \<and>
   invocations (snd (emit cross_talk (TyStr ''a'') ''payload'' 42)) =
     [(HFn 1, \<lparr>ev_type = ''a'', ev_data = ''payload'', ev_timestamp = 42, ev_once = True\<rparr>),
      (HFn 3, \<lparr>ev_type = ''a'', ev_data = ''payload'', ev_timestamp = 42, ev_once = True\<rparr>)] \<and>
   HFn 1 \<notin> set (handlers_of (fst (emit cross_talk (TyStr ''a'') ''payload'' 42)) ''a'') \<and>
   HFn 3 \<notin> set (handlers_of (fst (emit cross_talk (TyStr ''a'') ''payload'' 42)) ''a'')"
proof -
  let ?r = "emit cross_talk (TyStr ''a'') ''payload'' 42"
  have d: "distinct (handlers_of cross_talk ''a'')" by code_simp
  have who: "map fst (invocations (snd ?r)) = [HFn 1, HFn 3]" by code_simp
  then obtain e1 e3 where inv: "invocations (snd ?r) = [(HFn 1, e1), (HFn 3, e3)]"
    by (auto simp: map_eq_Cons_conv)
  have flag: "get_once cross_talk (HFn 1) = Some True" by code_simp
  have pair: "?r = (fst ?r, snd ?r)" by simp
  note main = emit_shares_one_event [OF pair]
  note shared = main [THEN conjunct1]
    and seen = main [THEN conjunct2, THEN conjunct1, rule_format]
    and later = main [THEN conjunct2, THEN conjunct2, THEN conjunct1, rule_format]
    and gone = main [THEN conjunct2, THEN conjunct2, THEN conjunct2, THEN conjunct2,
                     rule_format, OF d]
  from shared inv have fields:
    "ev_type e1 = ''a'' \<and> ev_data e1 = ''payload'' \<and> ev_timestamp e1 = 42"
    "ev_type e3 = ''a'' \<and> ev_data e3 = ''payload'' \<and> ev_timestamp e3 = 42"
    by simp_all
  from seen [of 0] inv flag have o1: "ev_once e1" by simp
  from later [of 0 1] inv o1 have o3: "ev_once e3" by simp
  from fields(1) o1
  have e1: "e1 = \<lparr>ev_type = ''a'', ev_data = ''payload'', ev_timestamp = 42, ev_once = True\<rparr>"
    by (cases e1) simp
  from fields(2) o3
  have e3: "e3 = \<lparr>ev_type = ''a'', ev_data = ''payload'', ev_timestamp = 42, ev_once = True\<rparr>"
    by (cases e3) simp
  from gone [of "(HFn 1, e1)"] gone [of "(HFn 3, e3)"] inv o1 o3
  have "HFn 1 \<notin> set (handlers_of (fst ?r) ''a'')" "HFn 3 \<notin> set (handlers_of (fst ?r) ''a'')"
    by simp_all
  with d inv e1 e3 show ?thesis by simp
qed

text \<open>
  Claim C1 at a concrete input. \<open>f1\<close> and \<open>f2\<close> are both registered with \<open>once\<close> for
  \<^verbatim>\<open>'a'\<close>, so the sequence at the start of \<^verbatim>\<open>emit('a')\<close> is \<open>f1, f2\<close>. The pass invokes
  \<open>f1\<close> only: removing \<open>f1\<close> moves \<open>f2\<close> to index 0 while the iterator goes on to index 1,
  and \<open>f2\<close> is neither invoked nor unregistered.
\<close>

theorem emit_skips_after_removal:
  "handlers_of two_once_handlers ''a'' = [HFn 1, HFn 2] \<and>
   map fst (invocations (snd (emit two_once_handlers (TyStr ''a'') () 0))) = [HFn 1] \<and>
   handlers_of (fst (emit two_once_handlers (TyStr ''a'') () 0)) ''a'' = [HFn 2]"
  by code_simp

section \<open>Registration\<close>

lemma events_set_once [simp]: "events (set_once s h b) = events s"
  by (cases h) simp_all

lemma handlers_of_set_once [simp]: "handlers_of (set_once s h b) k = handlers_of s k"
  by (simp add: handlers_of_def)


text \<open>When \<open>addListener\<close> returns \<^verbatim>\<open>true\<close>, and what it then leaves behind.\<close>

lemma snd_addListener:
  "snd (addListener s t h) = Inr True \<longleftrightarrow>
     isValidType t \<and> isValidHandler h \<and> accepts_once h \<and> plain_key s (propertyKey t) \<and>
     h \<notin> set (handlers_of s (propertyKey t))"
  by (auto simp: addListener_def Let_def plain_key_def handlers_of_def lookup_def
      split: option.splits slot.splits if_splits)

lemma handlers_of_addListener:
  "handlers_of (fst (addListener s t h)) T =
     (if snd (addListener s t h) = Inr True \<and> propertyKey t = T
      then handlers_of s T @ [h] else handlers_of s T)"
  by (auto simp: addListener_def Let_def handlers_of_def lookup_def
      split: option.splits slot.splits if_splits)

lemma once_prop_addListener:
  "once_prop (fst (addListener s t h)) g =
     (if snd (addListener s t h) = Inr True \<and> h = HFn g then Some False else once_prop s g)"
  by (cases h)
     (auto simp: addListener_def Let_def lookup_def split: option.splits slot.splits if_splits)

lemma get_once_addListener:
  "get_once (fst (addListener s t h)) g =
     (if snd (addListener s t h) = Inr True \<and> g = h then Some False else get_once s g)"
proof (cases g)
  case (HFn f)
  then show ?thesis by (auto simp: once_prop_addListener)
next
  case (HFixedFn f v)
  then show ?thesis by (auto simp: snd_addListener)
qed (auto simp: snd_addListener)


lemma snd_once: "snd (once s t h) = snd (addListener s t h)"
  by (simp add: once_def split: prod.splits sum.splits)

lemma once_returns_true:
  assumes "once s t h = (s1, Inr True)"
  shows "snd (addListener s t h) = Inr True"
    and "s1 = set_once (fst (addListener s t h)) h True"
  using assms by (auto simp: once_def split: prod.splits sum.splits if_splits)



section \<open>Uniqueness of handlers\<close>




section \<open>One-shot handlers\<close>




text \<open>
  Claim C3 at a concrete input. With \<open>f1\<close>, \<open>f2\<close> (both one-shot) and \<open>f3\<close> registered
  for \<^verbatim>\<open>'t'\<close>, \<^verbatim>\<open>once('t', f4)\<close> succeeds. The first \<^verbatim>\<open>emit('t')\<close> invokes \<open>f1\<close> and
  \<open>f3\<close> and leaves \<open>f2, f4\<close>; the second invokes \<open>f2\<close> and leaves \<open>f4\<close>. So \<open>f4\<close> is
  not invoked by either call and is still registered after each.
\<close>

theorem once_handler_skipped:
  "snd (once three_before (TyStr ''t'') (HFn 4)) = Inr True \<and>
   handlers_of once_behind_three ''t'' = [HFn 1, HFn 2, HFn 3, HFn 4] \<and>
   map fst (invocations (snd (emit once_behind_three (TyStr ''t'') () 0))) = [HFn 1, HFn 3] \<and>
   handlers_of (fst (emit once_behind_three (TyStr ''t'') () 0)) ''t'' = [HFn 2, HFn 4] \<and>
   map fst (invocations (snd (emit (fst (emit once_behind_three (TyStr ''t'') () 0))
      (TyStr ''t'') () 1))) = [HFn 2] \<and>
   handlers_of (fst (emit (fst (emit once_behind_three (TyStr ''t'') () 0))
      (TyStr ''t'') () 1)) ''t'' = [HFn 4]"
  by code_simp

text \<open>
  Claim C4 at a concrete input. \<open>f0\<close> is registered with \<open>once\<close> for \<^verbatim>\<open>'t'\<close>, then
  \<open>f1\<close>, \<open>f2\<close>, \<open>f3\<close> with \<open>on\<close>, in that order; their flags are false.
  \<^verbatim>\<open>emit('t')\<close> invokes \<open>f0\<close> and \<open>f2\<close> only: \<open>f1\<close> and \<open>f3\<close> are passed over.
\<close>

theorem registered_handlers_skipped:
  "handlers_of on_three_behind_once ''t'' = [HFn 0, HFn 1, HFn 2, HFn 3] \<and>
   map (once_prop on_three_behind_once) [1, 2, 3] = [Some False, Some False, Some False] \<and>
   map fst (invocations (snd (emit on_three_behind_once (TyStr ''t'') () 0))) = [HFn 0, HFn 2]"
  by code_simp

section \<open>Passes with no one-shot handler ahead\<close>

text \<open>
  The entries passed over in the two inputs above come right behind a handler that the
  pass removes. Where the handlers registered before carry no true flag, nothing is
  removed ahead of the new ones and none is passed over.
\<close>

lemma emit_loop_last_one_shot:
  assumes seq: "handlers_of s k = pre @ [HFn f]"
    and pre: "\<forall>g\<in>set pre. get_once s g \<noteq> Some True"
    and flag: "once_prop s f = Some True"
    and new: "HFn f \<notin> set pre"
    and ev: "\<not> ev_once ev"
  shows "i \<le> length pre \<Longrightarrow>
     emit_loop s k ev i =
       (off s (TyStr k) (HFn f), ev\<lparr>ev_once := True\<rparr>,
        map (\<lambda>h. Invoke h ev) (filter isValidHandler (drop i pre)) @
        [Invoke (HFn f) (ev\<lparr>ev_once := True\<rparr>), Unregister k (HFn f)])"
proof (induction "length pre - i" arbitrary: i)
  case 0
  then have i: "i = length pre" by simp
  have at: "handlers_of s k ! i = HFn f" by (simp add: seq i)
  have lt: "i < length (handlers_of s k)" by (simp add: seq i)
  have "handlers_of (off s (TyStr k) (HFn f)) k = pre"
    using new by (simp add: handlers_of_off_same seq remove1_append)
  then have fin: "emit_loop (off s (TyStr k) (HFn f)) k (ev\<lparr>ev_once := True\<rparr>) (Suc i) =
      (off s (TyStr k) (HFn f), ev\<lparr>ev_once := True\<rparr>, [])"
    by (simp add: emit_loop_done i)
  from lt at flag have "emit_loop s k ev i =
      (case emit_loop (off s (TyStr k) (HFn f)) k (ev\<lparr>ev_once := True\<rparr>) (Suc i) of
         (s2, ev2, log) \<Rightarrow>
           (s2, ev2, Invoke (HFn f) (ev\<lparr>ev_once := True\<rparr>) # Unregister k (HFn f) # log))"
    by (intro emit_loop_unregister) simp_all
  with fin show ?case by (simp add: i)
next
  case (Suc n)
  then have lt_pre: "i < length pre" and n: "n = length pre - Suc i" by simp_all
  then have lt: "i < length (handlers_of s k)" by (simp add: seq)
  have at: "handlers_of s k ! i = pre ! i" using lt_pre by (simp add: seq nth_append)
  have dr: "drop i pre = pre ! i # drop (Suc i) pre"
    using lt_pre by (simp add: Cons_nth_drop_Suc)
  from lt_pre have le: "Suc i \<le> length pre" by simp
  note IH = Suc(1) [OF n le]
  show ?case
  proof (cases "isValidHandler (pre ! i)")
    case False
    with lt at have "emit_loop s k ev i = emit_loop s k ev (Suc i)"
      by (simp add: emit_loop_skip)
    with IH False show ?thesis by (simp add: dr)
  next
    case True
    from lt_pre pre have "get_once s (pre ! i) \<noteq> Some True" by simp
    with lt at True ev have "emit_loop s k ev i =
       (case emit_loop s k ev (Suc i) of (s2, ev2, log) \<Rightarrow> (s2, ev2, Invoke (pre ! i) ev # log))"
      by (intro emit_loop_plain) simp_all
    with IH True show ?thesis by (simp add: dr)
  qed
qed

text \<open>
  \<open>once\<close> followed by two passes, on an emitter where no handler registered for \<open>T\<close>
  has a true flag: the first pass invokes the handlers registered before, then \<open>f\<close> with
  \<open>once = true\<close>, and removes \<open>f\<close>; the second pass does not invoke \<open>f\<close>.
\<close>

lemma once_then_emit_twice:
  assumes quiet: "\<forall>g\<in>set (handlers_of s T). get_once s g \<noteq> Some True"
    and reg: "once s (TyStr T) (HFn f) = (s1, Inr True)"
    and fire1: "emit s1 (TyStr T) d now = (s2, log1)"
    and fire2: "emit s2 (TyStr T) d' now' = (s3, log2)"
  shows "invocations log1 =
           map (\<lambda>h. (h, new_Event T d now False)) (filter isValidHandler (handlers_of s T)) @
           [(HFn f, new_Event T d now True)]"
    and "handlers_of s2 T = handlers_of s T"
    and "HFn f \<notin> set (handlers_of s2 T)"
    and "HFn f \<notin> fst ` set (invocations log2)"
proof -
  let ?s0 = "fst (addListener s (TyStr T) (HFn f))"
  from once_returns_true [OF reg]
  have ok: "snd (addListener s (TyStr T) (HFn f)) = Inr True"
    and s1: "s1 = set_once ?s0 (HFn f) True" .
  from ok have new: "HFn f \<notin> set (handlers_of s T)" by (simp add: snd_addListener)
  from s1 have "handlers_of s1 T = handlers_of ?s0 T" by (simp add: handlers_of_def)
  with ok have seq: "handlers_of s1 T = handlers_of s T @ [HFn f]"
    by (simp add: handlers_of_addListener)
  then have plain1: "plain_key s1 T" by (auto intro: plain_key_handlers)
  have flags: "get_once s1 g = get_once s g" if "g \<noteq> HFn f" for g
    using that by (cases g) (auto simp: s1 once_prop_addListener)
  from quiet new have pre: "\<forall>g\<in>set (handlers_of s T). get_once s1 g \<noteq> Some True"
    using flags by metis
  have flag: "once_prop s1 f = Some True" by (simp add: s1)
  let ?ev0 = "new_Event T d now False"
  have loop: "emit_loop s1 T ?ev0 0 =
       (off s1 (TyStr T) (HFn f), ?ev0\<lparr>ev_once := True\<rparr>,
        map (\<lambda>h. Invoke h ?ev0) (filter isValidHandler (drop 0 (handlers_of s T))) @
        [Invoke (HFn f) (?ev0\<lparr>ev_once := True\<rparr>), Unregister T (HFn f)])"
    by (rule emit_loop_last_one_shot [OF seq pre flag new]) (simp_all add: new_Event_def)
  with fire1 plain1 have s2: "s2 = off s1 (TyStr T) (HFn f)"
    and log1: "log1 = map (\<lambda>h. Invoke h ?ev0) (filter isValidHandler (handlers_of s T)) @
        [Invoke (HFn f) (?ev0\<lparr>ev_once := True\<rparr>), Unregister T (HFn f)]"
    by (simp_all add: emit_plain)
  have inv_app: "invocations (xs @ ys) = invocations xs @ invocations ys" for xs ys :: "'a action list"
    by (induction xs rule: invocations.induct) simp_all
  show "invocations log1 =
           map (\<lambda>h. (h, new_Event T d now False)) (filter isValidHandler (handlers_of s T)) @
           [(HFn f, new_Event T d now True)]"
    by (simp add: log1 inv_app invocations_map_Invoke new_Event_def)
  show after: "handlers_of s2 T = handlers_of s T"
    using new by (simp add: s2 handlers_of_off_same seq remove1_append)
  with new show gone: "HFn f \<notin> set (handlers_of s2 T)" by simp
  have "\<forall>g\<in>set (handlers_of s2 T). get_once s2 g \<noteq> Some True"
  proof
    fix g assume "g \<in> set (handlers_of s2 T)"
    with after pre have "get_once s1 g \<noteq> Some True" by simp
    then show "get_once s2 g \<noteq> Some True" by (simp add: s2)
  qed
  moreover have "plain_key s2 T"
  proof -
    from seq obtain hs where "events s1 T = Some hs" "hs \<noteq> []"
      by (auto simp: handlers_of_def split: option.splits)
    then have "events s2 T \<noteq> None" by (simp add: s2 off_two_args)
    then show ?thesis by (auto intro: plain_key_Some)
  qed
  ultimately have "emit s2 (TyStr T) d' now' =
           (s2, map (\<lambda>h. Invoke h (new_Event T d' now' False))
                 (filter isValidHandler (handlers_of s2 T)))"
    by (rule emit_no_one_shot)
  with fire2 have "invocations log2 =
      map (\<lambda>h. (h, new_Event T d' now' False)) (filter isValidHandler (handlers_of s2 T))"
    by (auto simp: invocations_map_Invoke)
  with gone show "HFn f \<notin> fst ` set (invocations log2)" by (auto simp: image_iff)
qed


lemma quiet_addListener:
  assumes "\<forall>g\<in>set (handlers_of s T). get_once s g \<noteq> Some True"
  shows "\<forall>g\<in>set (handlers_of (fst (addListener s t h)) T).
           get_once (fst (addListener s t h)) g \<noteq> Some True"
  using assms
  by (auto simp: get_once_addListener handlers_of_addListener split: if_splits)

text \<open>
  Three registrations followed by a pass, on an emitter where no handler registered for
  \<open>T\<close> has a true flag: the pass invokes the handlers registered before and then the
  three new ones, in the order of their registration, and changes nothing.
\<close>

lemma on_three_then_emit:
  assumes quiet: "\<forall>g\<in>set (handlers_of s T). get_once s g \<noteq> Some True"
    and r1: "addListener s (TyStr T) (HFn f1) = (s1, Inr True)"
    and r2: "addListener s1 (TyStr T) (HFn f2) = (s2, Inr True)"
    and r3: "addListener s2 (TyStr T) (HFn f3) = (s3, Inr True)"
  shows "emit s3 (TyStr T) d now =
           (s3, map (\<lambda>h. Invoke h (new_Event T d now False))
                  (filter isValidHandler (handlers_of s T) @ [HFn f1, HFn f2, HFn f3]))"
proof -
  from r1 have s1: "s1 = fst (addListener s (TyStr T) (HFn f1))"
    and ok1: "snd (addListener s (TyStr T) (HFn f1)) = Inr True" by simp_all
  from r2 have s2: "s2 = fst (addListener s1 (TyStr T) (HFn f2))"
    and ok2: "snd (addListener s1 (TyStr T) (HFn f2)) = Inr True" by simp_all
  from r3 have s3: "s3 = fst (addListener s2 (TyStr T) (HFn f3))"
    and ok3: "snd (addListener s2 (TyStr T) (HFn f3)) = Inr True" by simp_all
  from ok1 have seq1: "handlers_of s1 T = handlers_of s T @ [HFn f1]"
    by (simp add: s1 handlers_of_addListener)
  from ok2 have seq2: "handlers_of s2 T = handlers_of s1 T @ [HFn f2]"
    by (simp add: s2 handlers_of_addListener)
  from ok3 have seq3: "handlers_of s3 T = handlers_of s2 T @ [HFn f3]"
    by (simp add: s3 handlers_of_addListener)
  from quiet have "\<forall>g\<in>set (handlers_of s1 T). get_once s1 g \<noteq> Some True"
    unfolding s1 by (rule quiet_addListener)
  then have "\<forall>g\<in>set (handlers_of s2 T). get_once s2 g \<noteq> Some True"
    unfolding s2 by (rule quiet_addListener)
  then have "\<forall>g\<in>set (handlers_of s3 T). get_once s3 g \<noteq> Some True"
    unfolding s3 by (rule quiet_addListener)
  moreover from seq3 have "plain_key s3 T" by (auto intro: plain_key_handlers)
  ultimately have "emit s3 (TyStr T) d now =
           (s3, map (\<lambda>h. Invoke h (new_Event T d now False))
                 (filter isValidHandler (handlers_of s3 T)))"
    by (rule emit_no_one_shot)
  then show ?thesis by (simp add: seq1 seq2 seq3)
qed

end
